theory Spec2Isabelle
  imports Main
begin

section \<open>Python values decoded from a JSON document\<close>

text \<open>
  The payloads wrapped by \<^verbatim>\<open>sunverse.objects\<close> are decoded JSON documents. A value is
  \<^verbatim>\<open>None\<close>, a \<^verbatim>\<open>bool\<close>, an \<^verbatim>\<open>int\<close>, a \<^verbatim>\<open>str\<close>, a \<^verbatim>\<open>list\<close> or a \<^verbatim>\<open>dict\<close> with string
  keys. A dictionary is an association list in which the first binding of a key is the
  one that counts. Floating-point numbers are not part of the model. Characters are the
  code points below 256, among which the decimal digits are exactly \<^verbatim>\<open>0\<close> to \<^verbatim>\<open>9\<close>.
\<close>

datatype json =
    JNull
  | JBool bool
  | JInt int
  | JStr string
  | JList "json list"
  | JDict "(string \<times> json) list"

type_synonym payload = "(string \<times> json) list"

text \<open>The exceptions that the modelled code can raise.\<close>

datatype error = KeyError | TypeError | IndexError | AttributeError | NotImplementedError

text \<open>Sequencing of two computations that may raise: the first exception wins.\<close>

definition seq :: "error + 'a \<Rightarrow> ('a \<Rightarrow> error + 'b) \<Rightarrow> error + 'b" where
  "seq m f = (case m of Inl e \<Rightarrow> Inl e | Inr x \<Rightarrow> f x)"

text \<open>
  \<^verbatim>\<open>obj[key]\<close> with a string key: only a dictionary can be indexed by a string; a
  missing key is a \<^verbatim>\<open>KeyError\<close>, every other kind of value raises \<^verbatim>\<open>TypeError\<close>.
\<close>

fun getitem :: "json \<Rightarrow> string \<Rightarrow> error + json" where
  "getitem (JDict d) k = (case map_of d k of None \<Rightarrow> Inl KeyError | Some v \<Rightarrow> Inr v)"
| "getitem _ k = Inl TypeError"

text \<open>\<^verbatim>\<open>r[key]\<close> where \<open>r\<close> is itself the result of a subscript, as in \<^verbatim>\<open>data["a"]["b"]\<close>.\<close>

definition at :: "error + json \<Rightarrow> string \<Rightarrow> error + json" where
  "at r k = seq r (\<lambda>v. getitem v k)"

text \<open>\<^verbatim>\<open>data.get(key)\<close> on a dictionary: \<^verbatim>\<open>None\<close> when the key is absent.\<close>

definition dict_get :: "payload \<Rightarrow> string \<Rightarrow> json" where
  "dict_get d k = (case map_of d k of None \<Rightarrow> JNull | Some v \<Rightarrow> v)"

text \<open>
  The position that an integer index denotes in a sequence of the given length: an index
  from \<^verbatim>\<open>-len\<close> to \<^verbatim>\<open>-1\<close> counts from the end, and an index outside \<^verbatim>\<open>-len .. len-1\<close>
  denotes none.
\<close>

definition position :: "nat \<Rightarrow> int \<Rightarrow> nat option" where
  "position len i =
     (if 0 \<le> i \<and> i < int len then Some (nat i)
      else if - int len \<le> i \<and> i < 0 then Some (nat (int len + i))
      else None)"

text \<open>
  \<^verbatim>\<open>obj[i]\<close> with an integer index. Lists and strings are sequences and raise
  \<^verbatim>\<open>IndexError\<close> out of range; a dictionary with string keys has no integer key; the other
  values are not subscriptable.
\<close>

fun getindex :: "json \<Rightarrow> int \<Rightarrow> error + json" where
  "getindex (JList xs) i =
     (case position (length xs) i of None \<Rightarrow> Inl IndexError | Some j \<Rightarrow> Inr (xs ! j))"
| "getindex (JStr s) i =
     (case position (length s) i of None \<Rightarrow> Inl IndexError | Some j \<Rightarrow> Inr (JStr [s ! j]))"
| "getindex (JDict d) i = Inl KeyError"
| "getindex _ i = Inl TypeError"

text \<open>Truth value of an object, as tested by \<^verbatim>\<open>if obj:\<close>.\<close>

fun truthy :: "json \<Rightarrow> bool" where
  "truthy JNull = False"
| "truthy (JBool b) = b"
| "truthy (JInt i) = (i \<noteq> 0)"
| "truthy (JStr s) = (s \<noteq> [])"
| "truthy (JList xs) = (xs \<noteq> [])"
| "truthy (JDict d) = (d \<noteq> [])"

text \<open>
  \<^verbatim>\<open>a == b\<close> on decoded values. \<^verbatim>\<open>bool\<close> is a subclass of \<^verbatim>\<open>int\<close>, so \<^verbatim>\<open>True == 1\<close>;
  lists are compared element by element; dictionaries are equal when they have the same
  keys and equal values under each key.
\<close>

function py_eq :: "json \<Rightarrow> json \<Rightarrow> bool" where
  "py_eq JNull b = (b = JNull)"
| "py_eq (JBool x) b =
     (case b of JBool y \<Rightarrow> x = y | JInt j \<Rightarrow> (if x then 1 else 0) = j | _ \<Rightarrow> False)"
| "py_eq (JInt i) b =
     (case b of JBool y \<Rightarrow> i = (if y then 1 else 0) | JInt j \<Rightarrow> i = j | _ \<Rightarrow> False)"
| "py_eq (JStr s) b = (b = JStr s)"
| "py_eq (JList xs) b =
     (case b of JList ys \<Rightarrow> length xs = length ys \<and>
                  list_all (\<lambda>(x, y). py_eq x y) (zip xs ys)
              | _ \<Rightarrow> False)"
| "py_eq (JDict d) b =
     (case b of JDict d' \<Rightarrow> set (map fst d) = set (map fst d') \<and>
                  list_all (\<lambda>(k, v). map_of d k = Some v \<longrightarrow>
                     (case map_of d' k of None \<Rightarrow> False | Some w \<Rightarrow> py_eq v w)) d
              | _ \<Rightarrow> False)"
  by pat_completeness auto

termination py_eq
proof (relation "measure (\<lambda>(a, b). size a)", goal_cases)
  case 1
  show ?case by simp
next
  case (2 xs b ys z x y)
  then have "x \<in> set xs" by (auto dest: set_zip_leftD)
  then show ?case using size_list_estimation' [of x xs "size x" size] by simp
next
  case (3 d b d' z k v w)
  then have "(k, v) \<in> set d" by simp
  then show ?case
    using size_list_estimation' [of "(k, v)" d "Suc (size v)" "size_prod (\<lambda>x. 0) size"] by simp
qed

text \<open>
  The built-in \<^verbatim>\<open>hash\<close>. Its values on \<^verbatim>\<open>None\<close>, on integers and on strings belong to
  the interpreter (string hashing is seeded per process), so they are parameters.
  \<^verbatim>\<open>bool\<close> inherits the hash of \<^verbatim>\<open>int\<close>; lists and dictionaries are unhashable.
\<close>

record hash_impl =
  hash_none :: int
  hash_int :: "int \<Rightarrow> int"
  hash_str :: "string \<Rightarrow> int"

fun py_hash :: "hash_impl \<Rightarrow> json \<Rightarrow> error + int" where
  "py_hash h JNull = Inr (hash_none h)"
| "py_hash h (JBool b) = Inr (hash_int h (if b then 1 else 0))"
| "py_hash h (JInt i) = Inr (hash_int h i)"
| "py_hash h (JStr s) = Inr (hash_str h s)"
| "py_hash h (JList xs) = Inl TypeError"
| "py_hash h (JDict d) = Inl TypeError"

section \<open>Notification\<close>

text \<open>The slots of \<^verbatim>\<open>Notification\<close>. No annotation is enforced, so every slot holds a value.\<close>

record notification =
  data :: payload
  id' :: json
  is_read :: json
  title :: json
  message_ko :: json
  message_ja :: json
  message_en :: json
  logo_image_url :: json
  image_url :: json
  web_url :: json
  time_created :: json
  count :: json
  community_id :: json

text \<open>\<^verbatim>\<open>Notification.__init__\<close>: the assignments in source order; the first failing lookup raises.\<close>

definition Notification_init :: "payload \<Rightarrow> error + notification" where
  "Notification_init d =
     seq (getitem (JDict d) ''activityId'') (\<lambda>v_id.
     seq (getitem (JDict d) ''read'') (\<lambda>v_read.
     seq (getitem (JDict d) ''title'') (\<lambda>v_title.
     seq (at (at (getitem (JDict d) ''message'') ''values'') ''ko'') (\<lambda>v_ko.
     seq (at (at (getitem (JDict d) ''message'') ''values'') ''ja'') (\<lambda>v_ja.
     seq (at (at (getitem (JDict d) ''message'') ''values'') ''en'') (\<lambda>v_en.
     seq (getitem (JDict d) ''logoImageUrl'') (\<lambda>v_logo.
     seq (Inr (dict_get d ''imageUrl'')) (\<lambda>v_image.
     seq (getitem (JDict d) ''webUrl'') (\<lambda>v_web.
     seq (getitem (JDict d) ''time'') (\<lambda>v_time.
     seq (getitem (JDict d) ''count'') (\<lambda>v_count.
     seq (at (getitem (JDict d) ''community'') ''communityId'') (\<lambda>v_community.
       Inr \<lparr> data = d, id' = v_id, is_read = v_read, title = v_title,
             message_ko = v_ko, message_ja = v_ja, message_en = v_en,
             logo_image_url = v_logo, image_url = v_image, web_url = v_web,
             time_created = v_time, count = v_count,
             community_id = v_community \<rparr>))))))))))))"

text \<open>An object that a comparison can meet: a \<^verbatim>\<open>Notification\<close> or a plain decoded value.\<close>

datatype pyobj = Obj notification | Val json

text \<open>\<^verbatim>\<open>Notification.__eq__\<close>.\<close>

definition Notification_eq :: "notification \<Rightarrow> pyobj \<Rightarrow> error + bool" where
  "Notification_eq self other =
     (case other of
        Obj n \<Rightarrow> Inr (py_eq (id' self) (id' n))
      | Val v \<Rightarrow> Inl NotImplementedError)"

text \<open>
  The operator \<^verbatim>\<open>a == b\<close>: the left operand's \<^verbatim>\<open>__eq__\<close> is called first; a plain value
  on the left answers \<^verbatim>\<open>NotImplemented\<close> for a \<^verbatim>\<open>Notification\<close> on the right, and the
  reflected \<^verbatim>\<open>Notification.__eq__\<close> is called.
\<close>

definition op_eq :: "pyobj \<Rightarrow> pyobj \<Rightarrow> error + bool" where
  "op_eq a b =
     (case a of
        Obj n \<Rightarrow> Notification_eq n b
      | Val v \<Rightarrow> (case b of Obj m \<Rightarrow> Notification_eq m a | Val w \<Rightarrow> Inr (py_eq v w)))"

text \<open>\<^verbatim>\<open>Notification.__hash__\<close>.\<close>

definition Notification_hash :: "hash_impl \<Rightarrow> notification \<Rightarrow> error + int" where
  "Notification_hash h self = py_hash h (id' self)"

subsection \<open>Regular expressions\<close>

text \<open>
  The fragment of \<^verbatim>\<open>re\<close> syntax that the two patterns of \<^verbatim>\<open>post_id\<close> use: the escape
  \<^verbatim>\<open>\d\<close>, a literal character, a bracketed class, concatenation, the greedy \<^verbatim>\<open>+\<close> and a
  capturing group.
\<close>

datatype item = Esc_d | Ch char

datatype regex =
    Item item
  | Class "item list"
  | Seq regex regex
  | Plus regex
  | Group regex

definition is_digit :: "char \<Rightarrow> bool" where
  "is_digit c = (c \<in> set ''0123456789'')"

fun item_matches :: "item \<Rightarrow> char \<Rightarrow> bool" where
  "item_matches Esc_d c = is_digit c"
| "item_matches (Ch a) c = (c = a)"

text \<open>
  The backtracking matcher, anchored at the start of the string: the remainders left by
  every way of matching, in the order in which the engine tries them. A greedy repetition
  tries one more iteration before it tries to stop, and only repeats after an iteration
  that consumed input.
\<close>

fun matches :: "regex \<Rightarrow> string \<Rightarrow> string list" where
  "matches (Item i) s =
     (case s of [] \<Rightarrow> [] | c # cs \<Rightarrow> if item_matches i c then [cs] else [])"
| "matches (Class its) s =
     (case s of [] \<Rightarrow> [] | c # cs \<Rightarrow> if list_ex (\<lambda>i. item_matches i c) its then [cs] else [])"
| "matches (Seq r1 r2) s = concat (map (matches r2) (matches r1 s))"
| "matches (Plus r) s =
     concat (map (\<lambda>t. (if length t < length s then matches (Plus r) t else []) @ [t])
                 (matches r s))"
| "matches (Group r) s = matches r s"

text \<open>The text matched at the start of the string by the first successful attempt.\<close>

definition match_here :: "regex \<Rightarrow> string \<Rightarrow> string option" where
  "match_here r s =
     (case matches r s of [] \<Rightarrow> None | t # _ \<Rightarrow> Some (take (length s - length t) s))"

text \<open>
  \<^verbatim>\<open>re.search\<close>: the match at the leftmost position that has one. The result stands for
  the match object and is its \<^verbatim>\<open>group(0)\<close>; \<open>None\<close> is Python's \<^verbatim>\<open>None\<close>.
\<close>

fun search :: "regex \<Rightarrow> string \<Rightarrow> string option" where
  "search r [] = match_here r []"
| "search r (c # cs) =
     (case match_here r (c # cs) of Some m \<Rightarrow> Some m | None \<Rightarrow> search r cs)"

text \<open>\<^verbatim>\<open>re.search(pattern, obj)\<close> raises \<^verbatim>\<open>TypeError\<close> unless \<open>obj\<close> is a string.\<close>

fun re_search :: "regex \<Rightarrow> json \<Rightarrow> error + string option" where
  "re_search r (JStr s) = Inr (search r s)"
| "re_search r _ = Inl TypeError"

text \<open>The pattern \<^verbatim>\<open>([\d]-\d+)\<close>.\<close>

definition pattern :: regex where
  "pattern = Group (Seq (Class [Esc_d]) (Seq (Item (Ch CHR ''-'')) (Plus (Item Esc_d))))"

text \<open>The pattern \<^verbatim>\<open>\d+\<close>.\<close>

definition digits :: regex where
  "digits = Plus (Item Esc_d)"

text \<open>
  The property \<^verbatim>\<open>post_id\<close>. A match object is always true, so the second search runs
  exactly when the first one found nothing; \<^verbatim>\<open>None.group(0)\<close> raises \<^verbatim>\<open>AttributeError\<close>.
\<close>

definition post_id :: "notification \<Rightarrow> error + string" where
  "post_id self =
     seq (getitem (JDict (data self)) ''messageId'') (\<lambda>mid.
     seq (re_search pattern mid) (\<lambda>found.
     seq (case found of
            Some m \<Rightarrow> Inr (Some m)
          | None \<Rightarrow> seq (getitem (JDict (data self)) ''messageId'') (re_search digits))
       (\<lambda>found'. case found' of Some m \<Rightarrow> Inr m | None \<Rightarrow> Inl AttributeError)))"

subsection \<open>Classification\<close>

text \<open>
  Modelled from the spec: the enumeration \<^verbatim>\<open>sunverse.enums.PostTypes\<close> is not among the
  sources; its members are the ten that \<^verbatim>\<open>post_type\<close> names.
\<close>

datatype PostTypes =
    USER_POST_COMMENT
  | MEDIA_COMMENT
  | MOMENT_COMMENT
  | ARTIST_POST_COMMENT
  | POST
  | MOMENT
  | LIVE
  | MEDIA
  | NOTICE
  | BIRTHDAY

text \<open>What \<^verbatim>\<open>post_type\<close> returns: a member of the enumeration or a string.\<close>

datatype classification = Member PostTypes | Text string

text \<open>The dictionary \<^verbatim>\<open>post_types\<close>, in insertion order.\<close>

definition post_types :: "(string \<times> PostTypes) list" where
  "post_types =
     [(''T_FEED_COMMENT'', USER_POST_COMMENT),
      (''ST_FEED_COMMENT'', USER_POST_COMMENT),
      (''_MEDIA_COMMENT'', MEDIA_COMMENT),
      (''_MOMENT_COMMENT'', MOMENT_COMMENT),
      (''MOMENT_COMMENT'', MOMENT_COMMENT),
      (''ARTIST_COMMENT'', ARTIST_POST_COMMENT),
      (''ARTIST_POST'', POST),
      (''ARTIST_MOMENT'', MOMENT),
      (''ARTIST_LIVE_ON_AIR'', LIVE),
      (''COMMUNITY_MEDIA'', MEDIA),
      (''NOTICE'', NOTICE),
      (''COMMUNITY_ANNIVERSARY'', BIRTHDAY)]"

text \<open>\<^verbatim>\<open>key in s\<close> for two strings: \<open>key\<close> occurs in \<open>s\<close> as a contiguous substring.\<close>

fun starts_with :: "string \<Rightarrow> string \<Rightarrow> bool" where
  "starts_with s [] = True"
| "starts_with [] (k # ks) = False"
| "starts_with (c # cs) (k # ks) = (c = k \<and> starts_with cs ks)"

fun str_contains :: "string \<Rightarrow> string \<Rightarrow> bool" where
  "str_contains [] key = starts_with [] key"
| "str_contains (c # cs) key = (starts_with (c # cs) key \<or> str_contains cs key)"

text \<open>
  \<^verbatim>\<open>key in obj\<close> for a string \<open>key\<close>: substring test on a string, membership in a list,
  key membership in a dictionary; the other values are not iterable.
\<close>

fun py_in :: "string \<Rightarrow> json \<Rightarrow> error + bool" where
  "py_in key (JStr s) = Inr (str_contains s key)"
| "py_in key (JList xs) = Inr (list_ex (\<lambda>x. py_eq x (JStr key)) xs)"
| "py_in key (JDict d) = Inr (key \<in> set (map fst d))"
| "py_in key _ = Inl TypeError"

text \<open>The loop of \<^verbatim>\<open>post_type\<close> over the remaining items of the dictionary.\<close>

fun post_type_loop :: "(string \<times> PostTypes) list \<Rightarrow> notification \<Rightarrow> error + classification" where
  "post_type_loop [] self = Inr (Text ''NOT IMPLEMENTED'')"
| "post_type_loop ((key, val) # rest) self =
     seq (getitem (JDict (data self)) ''messageId'') (\<lambda>mid.
     seq (py_in key mid) (\<lambda>found.
       if found then Inr (Member val) else post_type_loop rest self))"

definition post_type :: "notification \<Rightarrow> error + classification" where
  "post_type self = post_type_loop post_types self"

subsection \<open>Author\<close>

text \<open>The property \<^verbatim>\<open>author_id\<close>; \<open>JNull\<close> is \<^verbatim>\<open>None\<close>.\<close>

definition author_id :: "notification \<Rightarrow> error + json" where
  "author_id self =
     (if truthy (dict_get (data self) ''authors'')
      then at (seq (getitem (JDict (data self)) ''authors'') (\<lambda>a. getindex a 0)) ''memberId''
      else Inr JNull)"

section \<open>Live\<close>

text \<open>
  \<^verbatim>\<open>Live\<close> extends \<^verbatim>\<open>WeverseMedia\<close>, whose constructor is not among the sources: it is the
  parameter \<open>super_init\<close>, which builds the inherited part of the object or raises.
\<close>

record 'm live =
  media :: 'm
  message_count :: json

text \<open>\<^verbatim>\<open>Live.__init__\<close>.\<close>

definition Live_init :: "(payload \<Rightarrow> error + 'm) \<Rightarrow> payload \<Rightarrow> error + 'm live" where
  "Live_init super_init d =
     seq (super_init d) (\<lambda>m.
     seq (at (at (at (getitem (JDict d) ''extension'') ''mediaInfo'') ''chat'') ''messageCount'')
       (\<lambda>v. Inr \<lparr> media = m, message_count = v \<rparr>))"

section \<open>Notions of the specification\<close>

text \<open>The value found in a document by following a path of keys through nested mappings.\<close>

fun get_path :: "json \<Rightarrow> string list \<Rightarrow> json option" where
  "get_path v [] = Some v"
| "get_path (JDict d) (k # ks) = (case map_of d k of None \<Rightarrow> None | Some w \<Rightarrow> get_path w ks)"
| "get_path _ (k # ks) = None"

text \<open>The key paths that \<^verbatim>\<open>Notification\<close> requires.\<close>

definition required_paths :: "string list list" where
  "required_paths =
     [[''activityId''], [''read''], [''title''],
      [''message'', ''values'', ''ko''], [''message'', ''values'', ''ja''],
      [''message'', ''values'', ''en''], [''logoImageUrl''], [''webUrl''], [''time''],
      [''count''], [''community'', ''communityId'']]"

text \<open>A digit, a hyphen, then one or more digits.\<close>

definition dash_id :: "string \<Rightarrow> bool" where
  "dash_id m = (\<exists>c ds. m = c # CHR ''-'' # ds \<and> is_digit c \<and> ds \<noteq> [] \<and> list_all is_digit ds)"

text \<open>A run of one or more digits.\<close>

definition digit_run :: "string \<Rightarrow> bool" where
  "digit_run m = (m \<noteq> [] \<and> list_all is_digit m)"

text \<open>\<open>m\<close> occurs in \<open>s\<close> after the prefix \<open>pre\<close>.\<close>

definition occurs_at :: "string \<Rightarrow> string \<Rightarrow> string \<Rightarrow> bool" where
  "occurs_at pre m s = (\<exists>post. s = pre @ m @ post)"

text \<open>The key path from which \<^verbatim>\<open>Live\<close> reads the message count.\<close>

definition live_path :: "string list" where
  "live_path = [''extension'', ''mediaInfo'', ''chat'', ''messageCount'']"

text \<open>\<open>k\<close> is a contiguous substring of \<open>s\<close>.\<close>

definition is_substring :: "string \<Rightarrow> string \<Rightarrow> bool" where
  "is_substring k s = (\<exists>pre post. s = pre @ k @ post)"

text \<open>
  \<open>m\<close> is the first substring of \<open>s\<close> of the shape \<open>Q\<close>: no substring of that shape
  starts further left, and none that starts at the same place is longer.
\<close>

definition first_longest :: "(string \<Rightarrow> bool) \<Rightarrow> string \<Rightarrow> string \<Rightarrow> bool" where
  "first_longest Q s m =
     (\<exists>pre. Q m \<and> occurs_at pre m s \<and>
        (\<forall>pre' m'. Q m' \<and> occurs_at pre' m' s \<longrightarrow>
           length pre \<le> length pre' \<and> (length pre' = length pre \<longrightarrow> length m' \<le> length m)))"

section \<open>Example payloads\<close>

text \<open>A payload that carries every required key and none of the optional ones.\<close>

definition base_payload :: payload where
  "base_payload =
     [(''activityId'', JInt 7), (''read'', JBool False), (''title'', JStr ''T''),
      (''message'', JDict [(''values'',
          JDict [(''ko'', JStr ''k''), (''ja'', JStr ''j''), (''en'', JStr ''e'')])]),
      (''logoImageUrl'', JStr ''l''), (''webUrl'', JStr ''w''), (''time'', JInt 0),
      (''count'', JInt 0), (''community'', JDict [(''communityId'', JInt 3)])]"

section \<open>Lookups and key paths\<close>

lemma seq_Inr_iff: "seq m f = Inr y \<longleftrightarrow> (\<exists>x. m = Inr x \<and> f x = Inr y)"
  by (cases m) (simp_all add: seq_def)

lemma seq_Inl_iff: "seq m f = Inl e \<longleftrightarrow> m = Inl e \<or> (\<exists>x. m = Inr x \<and> f x = Inl e)"
  by (cases m) (simp_all add: seq_def)

lemma sum_cases_iff: "(\<exists>e. x = Inl e) \<longleftrightarrow> \<not> (\<exists>y. x = Inr y)"
  by (cases x) simp_all

lemma getitem_Inr_iff: "getitem v k = Inr w \<longleftrightarrow> get_path v [k] = Some w"
  by (cases v) (simp_all split: option.splits)

lemma getitem_error: "getitem v k = Inl e \<Longrightarrow> e = KeyError \<or> e = TypeError"
  by (cases v) (auto split: option.splits)

lemma get_path_snoc:
  "get_path v (ks @ [k]) = (case get_path v ks of None \<Rightarrow> None | Some w \<Rightarrow> get_path w [k])"
proof (induction v ks rule: get_path.induct)
  case (1 v)
  show ?case by simp
next
  case (2 d k' ks)
  then show ?case by (cases "map_of d k'") simp_all
qed simp_all

lemma get_path_Some_snoc:
  "get_path v (ks @ [k]) = Some w \<longleftrightarrow> (\<exists>u. get_path v ks = Some u \<and> get_path u [k] = Some w)"
  by (simp add: get_path_snoc split: option.splits)

lemma at_Inr_iff: "at r k = Inr w \<longleftrightarrow> (\<exists>u. r = Inr u \<and> get_path u [k] = Some w)"
  by (simp add: at_def seq_Inr_iff getitem_Inr_iff)

lemma at_error:
  assumes "at r k = Inl e" and "\<And>e. r = Inl e \<Longrightarrow> e = KeyError \<or> e = TypeError"
  shows "e = KeyError \<or> e = TypeError"
  using assms by (cases r) (auto simp: at_def seq_def dest: getitem_error)

lemma at2_Inr_iff: "at (getitem v a) b = Inr w \<longleftrightarrow> get_path v [a, b] = Some w"
  using get_path_Some_snoc [of v "[a]" b w] by (simp add: at_Inr_iff getitem_Inr_iff)

lemma at3_Inr_iff: "at (at (getitem v a) b) c = Inr w \<longleftrightarrow> get_path v [a, b, c] = Some w"
  using get_path_Some_snoc [of v "[a, b]" c w] by (simp add: at_Inr_iff [of _ c] at2_Inr_iff)

lemma at4_Inr_iff:
  "at (at (at (getitem v a) b) c) d = Inr w \<longleftrightarrow> get_path v [a, b, c, d] = Some w"
  using get_path_Some_snoc [of v "[a, b, c]" d w] by (simp add: at_Inr_iff [of _ d] at3_Inr_iff)

section \<open>Construction of a Notification\<close>

lemma Notification_init_Inr_iff:
  "Notification_init d = Inr n \<longleftrightarrow>
     (\<exists>v_id v_read v_title v_ko v_ja v_en v_logo v_web v_time v_count v_community.
        get_path (JDict d) [''activityId''] = Some v_id \<and>
        get_path (JDict d) [''read''] = Some v_read \<and>
        get_path (JDict d) [''title''] = Some v_title \<and>
        get_path (JDict d) [''message'', ''values'', ''ko''] = Some v_ko \<and>
        get_path (JDict d) [''message'', ''values'', ''ja''] = Some v_ja \<and>
        get_path (JDict d) [''message'', ''values'', ''en''] = Some v_en \<and>
        get_path (JDict d) [''logoImageUrl''] = Some v_logo \<and>
        get_path (JDict d) [''webUrl''] = Some v_web \<and>
        get_path (JDict d) [''time''] = Some v_time \<and>
        get_path (JDict d) [''count''] = Some v_count \<and>
        get_path (JDict d) [''community'', ''communityId''] = Some v_community \<and>
        n = \<lparr> data = d, id' = v_id, is_read = v_read, title = v_title,
             message_ko = v_ko, message_ja = v_ja, message_en = v_en,
             logo_image_url = v_logo, image_url = dict_get d ''imageUrl'', web_url = v_web,
             time_created = v_time, count = v_count,
             community_id = v_community \<rparr>)"
  unfolding Notification_init_def seq_Inr_iff getitem_Inr_iff at2_Inr_iff at3_Inr_iff
  by (simp only: sum.inject ex_simps simp_thms) blast

lemma Notification_init_error:
  assumes "Notification_init d = Inl e"
  shows "e = KeyError \<or> e = TypeError"
proof -
  have g: "\<And>k e. getitem (JDict d) k = Inl e \<Longrightarrow> e = KeyError \<or> e = TypeError"
    by (rule getitem_error)
  have a2: "\<And>a b e. at (getitem (JDict d) a) b = Inl e \<Longrightarrow> e = KeyError \<or> e = TypeError"
    by (erule at_error) (rule g)
  have a3: "\<And>a b c e. at (at (getitem (JDict d) a) b) c = Inl e \<Longrightarrow> e = KeyError \<or> e = TypeError"
    by (erule at_error) (rule a2)
  from assms show ?thesis
    unfolding Notification_init_def seq_Inl_iff
    by (elim disjE exE conjE) (auto simp del: getitem.simps dest: g a2 a3)
qed

lemma Notification_init_succeeds_iff:
  "(\<exists>n. Notification_init d = Inr n) \<longleftrightarrow> (\<forall>p\<in>set required_paths. get_path (JDict d) p \<noteq> None)"
  unfolding Notification_init_Inr_iff required_paths_def by auto

lemma Notification_init_fields:
  assumes "Notification_init P = Inr n"
  shows "data n = P" and "map_of P ''activityId'' = Some (id' n)"
  using assms unfolding Notification_init_Inr_iff by (auto split: option.splits)

lemma base_payload_valid: "\<exists>n. Notification_init base_payload = Inr n"
  unfolding Notification_init_succeeds_iff by (simp add: required_paths_def base_payload_def)

lemma payload_with_valid:
  assumes "k \<notin> set (map fst base_payload)"
  shows "\<exists>n. Notification_init ((k, v) # base_payload) = Inr n \<and> data n = (k, v) # base_payload"
proof -
  have "\<forall>p\<in>set required_paths. get_path (JDict ((k, v) # base_payload)) p \<noteq> None"
    using assms by (auto simp: required_paths_def base_payload_def)
  then obtain n where "Notification_init ((k, v) # base_payload) = Inr n"
    using Notification_init_succeeds_iff by blast
  then show ?thesis using Notification_init_fields(1) by blast
qed

text \<open>
  C6: constructing a Notification fails exactly when one of the required key paths does
  not lead to a value in the payload, and the exception is then that of a failed lookup
  (\<^verbatim>\<open>KeyError\<close> for a key that a mapping lacks, \<^verbatim>\<open>TypeError\<close> where the path runs into a
  value that is not a mapping). \<^verbatim>\<open>imageUrl\<close> is optional: a payload that has every required
  key and no \<^verbatim>\<open>imageUrl\<close> is accepted, and \<^verbatim>\<open>image_url\<close> is \<^verbatim>\<open>None\<close>.
\<close>

theorem Notification_init_fails_iff_required_key_absent:
  "((\<exists>e. Notification_init d = Inl e) \<longleftrightarrow>
      (\<exists>p\<in>set required_paths. get_path (JDict d) p = None)) \<and>
   (\<forall>e. Notification_init d = Inl e \<longrightarrow> e = KeyError \<or> e = TypeError) \<and>
   ((\<forall>p\<in>set required_paths. get_path (JDict d) p \<noteq> None) \<and> map_of d ''imageUrl'' = None \<longrightarrow>
      (\<exists>n. Notification_init d = Inr n \<and> image_url n = JNull))"
proof (intro conjI allI impI)
  show "(\<exists>e. Notification_init d = Inl e) \<longleftrightarrow>
      (\<exists>p\<in>set required_paths. get_path (JDict d) p = None)"
    unfolding sum_cases_iff Notification_init_succeeds_iff by simp
next
  fix e assume "Notification_init d = Inl e"
  then show "e = KeyError \<or> e = TypeError" by (rule Notification_init_error)
next
  assume a: "(\<forall>p\<in>set required_paths. get_path (JDict d) p \<noteq> None) \<and> map_of d ''imageUrl'' = None"
  then obtain n where n: "Notification_init d = Inr n"
    using Notification_init_succeeds_iff [of d] by blast
  then have "image_url n = dict_get d ''imageUrl''"
    unfolding Notification_init_Inr_iff by auto
  with a n show "\<exists>n. Notification_init d = Inr n \<and> image_url n = JNull"
    by (simp add: dict_get_def)
qed

theorem Notification_init_witness:
  "(\<exists>n. Notification_init base_payload = Inr n \<and> image_url n = JNull) \<and>
   (\<exists>e. Notification_init (tl base_payload) = Inl e)"
proof -
  have 1: "(\<forall>p\<in>set required_paths. get_path (JDict base_payload) p \<noteq> None) \<and>
      map_of base_payload ''imageUrl'' = None"
    by (simp add: required_paths_def base_payload_def)
  have 2: "\<exists>p\<in>set required_paths. get_path (JDict (tl base_payload)) p = None"
    by (simp add: required_paths_def base_payload_def)
  show ?thesis
    using 1 2 Notification_init_fails_iff_required_key_absent [of base_payload]
      Notification_init_fails_iff_required_key_absent [of "tl base_payload"]
    by blast
qed

section \<open>Equality and hashing\<close>

text \<open>
  C1: for payloads \<open>P\<close> and \<open>P2\<close> from which Notifications \<open>n\<close> and \<open>n2\<close> are built, the
  \<^verbatim>\<open>id\<close> of each is the \<^verbatim>\<open>activityId\<close> of its payload, and \<^verbatim>\<open>n == n2\<close> returns the truth
  value of \<^verbatim>\<open>P["activityId"] == P2["activityId"]\<close>.
\<close>

theorem Notification_eq_iff_activityId_eq:
  assumes "Notification_init P = Inr n" and "Notification_init P2 = Inr n2"
  shows "\<exists>a a2. map_of P ''activityId'' = Some a \<and> map_of P2 ''activityId'' = Some a2 \<and>
           id' n = a \<and> id' n2 = a2 \<and> op_eq (Obj n) (Obj n2) = Inr (py_eq a a2)"
  using Notification_init_fields(2) [OF assms(1)] Notification_init_fields(2) [OF assms(2)]
  by (simp add: op_eq_def Notification_eq_def)

theorem Notification_eq_witness:
  "\<exists>n n2. Notification_init base_payload = Inr n \<and>
      Notification_init ((''activityId'', JInt 8) # tl base_payload) = Inr n2 \<and>
      op_eq (Obj n) (Obj n2) = Inr False \<and> op_eq (Obj n) (Obj n) = Inr True"
proof -
  obtain n where n: "Notification_init base_payload = Inr n"
    using base_payload_valid by blast
  obtain n2 where n2: "Notification_init ((''activityId'', JInt 8) # tl base_payload) = Inr n2"
    using Notification_init_succeeds_iff [of "(''activityId'', JInt 8) # tl base_payload"]
    by (auto simp: required_paths_def base_payload_def)
  have "op_eq (Obj n) (Obj n2) = Inr False"
    using Notification_eq_iff_activityId_eq [OF n n2] by (auto simp: base_payload_def)
  moreover have "op_eq (Obj n) (Obj n) = Inr True"
    using Notification_eq_iff_activityId_eq [OF n n] by (auto simp: base_payload_def)
  ultimately show ?thesis using n n2 by blast
qed

text \<open>
  C2: comparing a Notification with a value that is not a Notification raises
  \<^verbatim>\<open>NotImplementedError\<close>, whether \<^verbatim>\<open>__eq__\<close> is called directly or through \<^verbatim>\<open>==\<close> with the
  Notification on either side; no truth value is returned.
\<close>

theorem Notification_eq_non_notification_raises:
  "Notification_eq n (Val v) = Inl NotImplementedError \<and>
   op_eq (Obj n) (Val v) = Inl NotImplementedError \<and>
   op_eq (Val v) (Obj n) = Inl NotImplementedError"
  by (simp add: Notification_eq_def op_eq_def)

lemma py_eq_hash: "py_eq a b \<Longrightarrow> py_hash h a = py_hash h b"
  by (cases a; cases b) (auto split: if_splits)

text \<open>
  C9: the hash of a Notification is the hash of its \<^verbatim>\<open>id\<close>, which is the hash of the
  \<^verbatim>\<open>activityId\<close> of the payload it was built from; two Notifications that compare equal
  hash alike (to the same number, or both raise \<^verbatim>\<open>TypeError\<close> for an unhashable \<^verbatim>\<open>id\<close>).
\<close>

theorem Notification_hash_from_id:
  "Notification_hash h n = py_hash h (id' n) \<and>
   (\<forall>P. Notification_init P = Inr n \<longrightarrow>
      Notification_hash h n = seq (getitem (JDict P) ''activityId'') (py_hash h)) \<and>
   (op_eq (Obj n) (Obj n2) = Inr True \<longrightarrow> Notification_hash h n = Notification_hash h n2)"
  by (auto simp: Notification_hash_def op_eq_def Notification_eq_def seq_def py_eq_hash
      dest: Notification_init_fields(2))

theorem Notification_hash_witness:
  "\<exists>n. Notification_init base_payload = Inr n \<and>
     op_eq (Obj n) (Obj n) = Inr True \<and>
     Notification_hash \<lparr> hash_none = 0, hash_int = (\<lambda>i. i), hash_str = (\<lambda>s. int (length s)) \<rparr> n = Inr 7"
proof -
  obtain n where n: "Notification_init base_payload = Inr n"
    using base_payload_valid by blast
  have "id' n = JInt 7"
    using Notification_init_fields(2) [OF n] by (simp add: base_payload_def)
  then have e: "op_eq (Obj n) (Obj n) = Inr True"
    by (simp add: op_eq_def Notification_eq_def)
  show ?thesis
    using n e Notification_hash_from_id
      [of "\<lparr> hash_none = 0, hash_int = (\<lambda>i. i), hash_str = (\<lambda>s. int (length s)) \<rparr>" n n]
    by (auto simp: seq_def base_payload_def)
qed

section \<open>Construction of a Live\<close>

lemma live_lookup_error:
  assumes "at (at (at (getitem (JDict d) a) b) c) k = Inl e"
  shows "e = KeyError \<or> e = TypeError"
  using assms
  by (elim at_error) (rule getitem_error)

lemma Live_init_Inr_iff:
  "Live_init super_init d = Inr l \<longleftrightarrow>
     (\<exists>m v. super_init d = Inr m \<and> get_path (JDict d) live_path = Some v \<and>
        l = \<lparr> media = m, message_count = v \<rparr>)"
  unfolding Live_init_def seq_Inr_iff at4_Inr_iff live_path_def by auto

text \<open>
  Nothing checks the value found under \<^verbatim>\<open>messageCount\<close>: a string there is stored as the
  message count and the construction succeeds.
\<close>

theorem Live_init_wrong_leaf_counterexample:
  "Live_init (\<lambda>d. Inr ()) [(''extension'', JDict [(''mediaInfo'', JDict [(''chat'',
       JDict [(''messageCount'', JStr ''oops'')])])])]
     = Inr \<lparr> media = (), message_count = JStr ''oops'' \<rparr>"
  by (simp add: Live_init_def seq_def at_def)

text \<open>
  C7, as amended: \<^verbatim>\<open>Live\<close> takes \<^verbatim>\<open>message_count\<close> from the path
  \<^verbatim>\<open>extension.mediaInfo.chat.messageCount\<close> of the payload. The construction fails when a
  key of the path is absent or a value before the last key is not a mapping, and once the
  inherited constructor has succeeded the exception is then \<^verbatim>\<open>KeyError\<close> (a mapping lacks
  the key) or \<^verbatim>\<open>TypeError\<close> (not a mapping). The value found under \<^verbatim>\<open>messageCount\<close> is
  stored as it is, whatever its kind.
\<close>

theorem Live_init_message_count:
  "(\<forall>l. Live_init super_init d = Inr l \<longrightarrow> get_path (JDict d) live_path = Some (message_count l)) \<and>
   (get_path (JDict d) live_path = None \<longrightarrow> (\<exists>e. Live_init super_init d = Inl e)) \<and>
   (\<forall>m. super_init d = Inr m \<longrightarrow>
      (case get_path (JDict d) live_path of
         Some v \<Rightarrow> Live_init super_init d = Inr \<lparr> media = m, message_count = v \<rparr>
       | None \<Rightarrow> Live_init super_init d = Inl KeyError \<or> Live_init super_init d = Inl TypeError))"
proof (intro conjI allI impI)
  fix l assume "Live_init super_init d = Inr l"
  then show "get_path (JDict d) live_path = Some (message_count l)"
    by (auto simp: Live_init_Inr_iff)
next
  assume "get_path (JDict d) live_path = None"
  then have "\<not> (\<exists>l. Live_init super_init d = Inr l)"
    by (auto simp: Live_init_Inr_iff)
  then show "\<exists>e. Live_init super_init d = Inl e"
    by (simp add: sum_cases_iff)
next
  fix m assume m: "super_init d = Inr m"
  show "case get_path (JDict d) live_path of
         Some v \<Rightarrow> Live_init super_init d = Inr \<lparr> media = m, message_count = v \<rparr>
       | None \<Rightarrow> Live_init super_init d = Inl KeyError \<or> Live_init super_init d = Inl TypeError"
  proof (cases "get_path (JDict d) live_path")
    case None
    then have "\<not> (\<exists>l. Live_init super_init d = Inr l)"
      by (auto simp: Live_init_Inr_iff)
    then obtain e where e: "Live_init super_init d = Inl e"
      using sum_cases_iff [of "Live_init super_init d"] by blast
    then have "e = KeyError \<or> e = TypeError"
      using m by (auto simp: Live_init_def seq_Inl_iff simp del: getitem.simps dest: live_lookup_error)
    with e None show ?thesis by auto
  next
    case (Some v)
    then show ?thesis
      using m by (simp add: Live_init_Inr_iff)
  qed
qed

theorem Live_init_witness:
  "Live_init (\<lambda>d. Inr ()) [(''extension'', JDict [(''mediaInfo'', JDict [(''chat'',
       JDict [(''messageCount'', JInt 12)])])])] = Inr \<lparr> media = (), message_count = JInt 12 \<rparr> \<and>
   (\<exists>e. Live_init (\<lambda>d. Inr ()) [(''extension'', JDict [(''mediaInfo'', JDict [])])] = Inl e)"
  using Live_init_message_count [of "\<lambda>d. Inr ()" "[(''extension'', JDict [(''mediaInfo'', JDict [(''chat'',
       JDict [(''messageCount'', JInt 12)])])])]"]
     Live_init_message_count [of "\<lambda>d. Inr ()" "[(''extension'', JDict [(''mediaInfo'', JDict [])])]"]
  by (simp add: live_path_def)

section \<open>The author of a notification\<close>

text \<open>
  A non-empty \<^verbatim>\<open>authors\<close> list passes the guard whatever its first element is; when that
  element is a mapping without \<^verbatim>\<open>memberId\<close>, the subscript raises \<^verbatim>\<open>KeyError\<close>.
\<close>

theorem author_id_raises_counterexample:
  "seq (Notification_init ((''authors'', JList [JDict []]) # base_payload)) author_id = Inl KeyError"
  by (simp add: Notification_init_def base_payload_def seq_def at_def author_id_def dict_get_def
      position_def)

text \<open>
  C8, as amended: \<^verbatim>\<open>author_id\<close> is \<^verbatim>\<open>None\<close> when the \<^verbatim>\<open>authors\<close> key is absent or the
  list is empty. When \<^verbatim>\<open>authors\<close> is a non-empty list, \<^verbatim>\<open>author_id\<close> is the \<^verbatim>\<open>memberId\<close> of
  its first element if that element is a mapping with this key; otherwise it raises
  \<^verbatim>\<open>KeyError\<close> (a mapping without \<^verbatim>\<open>memberId\<close>) or \<^verbatim>\<open>TypeError\<close> (not a mapping).
\<close>

theorem author_id_cases:
  "(map_of (data self) ''authors'' = None \<or> map_of (data self) ''authors'' = Some (JList []) \<longrightarrow>
      author_id self = Inr JNull) \<and>
   (\<forall>x xs. map_of (data self) ''authors'' = Some (JList (x # xs)) \<longrightarrow>
      author_id self = (case get_path x [''memberId''] of
         Some v \<Rightarrow> Inr v
       | None \<Rightarrow> (case x of JDict m \<Rightarrow> Inl KeyError | _ \<Rightarrow> Inl TypeError)))"
  by (cases "map_of (data self) ''authors''")
     (auto simp: author_id_def dict_get_def at_def seq_def position_def
        split: option.splits json.splits)

theorem author_id_witness:
  "seq (Notification_init
          ((''authors'', JList [JDict [(''memberId'', JStr ''abc'')]]) # base_payload)) author_id
     = Inr (JStr ''abc'') \<and>
   seq (Notification_init base_payload) author_id = Inr JNull"
proof -
  obtain n where n: "Notification_init
      ((''authors'', JList [JDict [(''memberId'', JStr ''abc'')]]) # base_payload) = Inr n"
    and d: "data n = (''authors'', JList [JDict [(''memberId'', JStr ''abc'')]]) # base_payload"
    using payload_with_valid [of "''authors''"] by (auto simp: base_payload_def)
  obtain n0 where n0: "Notification_init base_payload = Inr n0"
    using base_payload_valid by blast
  then have d0: "data n0 = base_payload"
    by (rule Notification_init_fields(1))
  have "author_id n = Inr (JStr ''abc'')"
    using author_id_cases [of n] by (simp add: d)
  moreover have "author_id n0 = Inr JNull"
    using author_id_cases [of n0] by (simp add: d0 base_payload_def)
  ultimately show ?thesis using n n0 by (simp add: seq_def)
qed

section \<open>Classification by marker\<close>

lemma starts_with_iff: "starts_with s k \<longleftrightarrow> (\<exists>post. s = k @ post)"
  by (induction s k rule: starts_with.induct) auto

lemma str_contains_iff: "str_contains s k \<longleftrightarrow> is_substring k s"
proof (induction s)
  case Nil
  show ?case by (cases k) (simp_all add: is_substring_def)
next
  case (Cons c cs)
  have "is_substring k (c # cs) \<longleftrightarrow> (\<exists>post. c # cs = k @ post) \<or> is_substring k cs"
    unfolding is_substring_def
  proof (intro iffI)
    assume "\<exists>pre post. c # cs = pre @ k @ post"
    then obtain pre post where e: "c # cs = pre @ k @ post" by blast
    show "(\<exists>post. c # cs = k @ post) \<or> (\<exists>pre post. cs = pre @ k @ post)"
    proof (cases pre)
      case Nil
      with e show ?thesis by auto
    next
      case (Cons p ps)
      with e have "cs = ps @ k @ post" by simp
      then show ?thesis by blast
    qed
  next
    assume "(\<exists>post. c # cs = k @ post) \<or> (\<exists>pre post. cs = pre @ k @ post)"
    then show "\<exists>pre post. c # cs = pre @ k @ post"
    proof
      assume "\<exists>post. c # cs = k @ post"
      then obtain post where "c # cs = [] @ k @ post" by auto
      then show ?thesis by blast
    next
      assume "\<exists>pre post. cs = pre @ k @ post"
      then obtain pre post where "c # cs = (c # pre) @ k @ post" by auto
      then show ?thesis by blast
    qed
  qed
  with Cons show ?case by (simp add: starts_with_iff)
qed

lemma post_type_loop_find:
  assumes "map_of (data self) ''messageId'' = Some (JStr s)"
  shows "post_type_loop tbl self =
     (case find (\<lambda>kv. is_substring (fst kv) s) tbl of
        None \<Rightarrow> Inr (Text ''NOT IMPLEMENTED'')
      | Some kv \<Rightarrow> Inr (Member (snd kv)))"
  using assms by (induction tbl) (auto simp: seq_def str_contains_iff)

lemma earliest_marker_at:
  assumes "k < length post_types" and "is_substring (fst (post_types ! k)) s"
    and "list_all (\<lambda>kv. \<not> is_substring (fst kv) s) (take k post_types)"
    and "is_substring (fst (post_types ! i)) s"
    and "\<forall>j<i. \<not> is_substring (fst (post_types ! j)) s"
  shows "i = k"
proof -
  have before: "\<not> is_substring (fst (post_types ! j)) s" if "j < k" for j
    using assms(1,3) that by (auto simp: list_all_length)
  have "\<not> i < k" using before assms(4) by blast
  moreover have "\<not> k < i" using assms(2,5) by blast
  ultimately show ?thesis by arith
qed

text \<open>
  C3: the markers and the members they are mapped to are the twelve pairs of the declared
  table, in the declared order, and when the \<^verbatim>\<open>messageId\<close> string contains at least one
  marker, \<^verbatim>\<open>post_type\<close> is the member paired with the earliest marker of that order that
  is a substring of \<^verbatim>\<open>messageId\<close>. For \<^verbatim>\<open>0-12_MEDIA_COMMENT\<close> this is \<^verbatim>\<open>MEDIA_COMMENT\<close>.
\<close>

theorem post_type_earliest_marker:
  assumes "map_of (data self) ''messageId'' = Some (JStr s)"
    and "\<exists>kv\<in>set post_types. is_substring (fst kv) s"
  shows "post_types =
      [(''T_FEED_COMMENT'', USER_POST_COMMENT), (''ST_FEED_COMMENT'', USER_POST_COMMENT),
       (''_MEDIA_COMMENT'', MEDIA_COMMENT), (''_MOMENT_COMMENT'', MOMENT_COMMENT),
       (''MOMENT_COMMENT'', MOMENT_COMMENT), (''ARTIST_COMMENT'', ARTIST_POST_COMMENT),
       (''ARTIST_POST'', POST), (''ARTIST_MOMENT'', MOMENT), (''ARTIST_LIVE_ON_AIR'', LIVE),
       (''COMMUNITY_MEDIA'', MEDIA), (''NOTICE'', NOTICE),
       (''COMMUNITY_ANNIVERSARY'', BIRTHDAY)] \<and>
    (\<exists>i<length post_types. is_substring (fst (post_types ! i)) s \<and>
       (\<forall>j<i. \<not> is_substring (fst (post_types ! j)) s) \<and>
       post_type self = Inr (Member (snd (post_types ! i))))"
proof
  show "post_types =
      [(''T_FEED_COMMENT'', USER_POST_COMMENT), (''ST_FEED_COMMENT'', USER_POST_COMMENT),
       (''_MEDIA_COMMENT'', MEDIA_COMMENT), (''_MOMENT_COMMENT'', MOMENT_COMMENT),
       (''MOMENT_COMMENT'', MOMENT_COMMENT), (''ARTIST_COMMENT'', ARTIST_POST_COMMENT),
       (''ARTIST_POST'', POST), (''ARTIST_MOMENT'', MOMENT), (''ARTIST_LIVE_ON_AIR'', LIVE),
       (''COMMUNITY_MEDIA'', MEDIA), (''NOTICE'', NOTICE),
       (''COMMUNITY_ANNIVERSARY'', BIRTHDAY)]"
    by (simp add: post_types_def)
next
  from assms(2) obtain kv where
    f: "find (\<lambda>kv. is_substring (fst kv) s) post_types = Some kv"
    by (cases "find (\<lambda>kv. is_substring (fst kv) s) post_types") (auto simp: find_None_iff)
  then obtain i where i: "i < length post_types" "is_substring (fst (post_types ! i)) s"
    "kv = post_types ! i" "\<forall>j<i. \<not> is_substring (fst (post_types ! j)) s"
    unfolding find_Some_iff by blast
  have "post_type self = Inr (Member (snd kv))"
    using post_type_loop_find [OF assms(1), of post_types] f by (simp add: post_type_def)
  with i show "\<exists>i<length post_types. is_substring (fst (post_types ! i)) s \<and>
       (\<forall>j<i. \<not> is_substring (fst (post_types ! j)) s) \<and>
       post_type self = Inr (Member (snd (post_types ! i)))"
    by blast
qed

theorem post_type_witness:
  "seq (Notification_init ((''messageId'', JStr ''0-12_MEDIA_COMMENT'') # base_payload)) post_type
     = Inr (Member MEDIA_COMMENT) \<and>
   seq (Notification_init ((''messageId'', JStr ''NOTICE123'') # base_payload)) post_type
     = Inr (Member NOTICE) \<and>
   seq (Notification_init ((''messageId'', JStr ''3-45_ARTIST_LIVE_ON_AIR'') # base_payload)) post_type
     = Inr (Member LIVE)"
proof (intro conjI)
  obtain n where n: "Notification_init ((''messageId'', JStr ''0-12_MEDIA_COMMENT'') # base_payload) = Inr n"
    and d: "data n = (''messageId'', JStr ''0-12_MEDIA_COMMENT'') # base_payload"
    using payload_with_valid [of "''messageId''"] by (auto simp: base_payload_def)
  have m: "map_of (data n) ''messageId'' = Some (JStr ''0-12_MEDIA_COMMENT'')"
    by (simp add: d)
  have k: "2 < length post_types" "post_types ! 2 = (''_MEDIA_COMMENT'', MEDIA_COMMENT)"
    by (simp_all add: post_types_def)
  have here: "is_substring (fst (post_types ! 2)) ''0-12_MEDIA_COMMENT''"
    unfolding k(2) str_contains_iff [symmetric] by code_simp
  have before: "list_all (\<lambda>kv. \<not> is_substring (fst kv) ''0-12_MEDIA_COMMENT'') (take 2 post_types)"
    unfolding str_contains_iff [symmetric] by code_simp
  have e: "\<exists>kv\<in>set post_types. is_substring (fst kv) ''0-12_MEDIA_COMMENT''"
    using here k(1) nth_mem by blast
  from post_type_earliest_marker [OF m e] obtain i where
    i: "is_substring (fst (post_types ! i)) ''0-12_MEDIA_COMMENT''"
      "\<forall>j<i. \<not> is_substring (fst (post_types ! j)) ''0-12_MEDIA_COMMENT''"
      "post_type n = Inr (Member (snd (post_types ! i)))"
    by blast
  have "i = 2" using k(1) here before i(1,2) by (rule earliest_marker_at)
  with i(3) k(2) have "post_type n = Inr (Member MEDIA_COMMENT)" by simp
  with n show "seq (Notification_init ((''messageId'', JStr ''0-12_MEDIA_COMMENT'') # base_payload))
      post_type = Inr (Member MEDIA_COMMENT)"
    by (simp add: seq_def)
next
  obtain n where n: "Notification_init ((''messageId'', JStr ''NOTICE123'') # base_payload) = Inr n"
    and d: "data n = (''messageId'', JStr ''NOTICE123'') # base_payload"
    using payload_with_valid [of "''messageId''"] by (auto simp: base_payload_def)
  have m: "map_of (data n) ''messageId'' = Some (JStr ''NOTICE123'')"
    by (simp add: d)
  have k: "10 < length post_types" "post_types ! 10 = (''NOTICE'', NOTICE)"
    by (simp_all add: post_types_def)
  have here: "is_substring (fst (post_types ! 10)) ''NOTICE123''"
    unfolding k(2) str_contains_iff [symmetric] by code_simp
  have before: "list_all (\<lambda>kv. \<not> is_substring (fst kv) ''NOTICE123'') (take 10 post_types)"
    unfolding str_contains_iff [symmetric] by code_simp
  have e: "\<exists>kv\<in>set post_types. is_substring (fst kv) ''NOTICE123''"
    using here k(1) nth_mem by blast
  from post_type_earliest_marker [OF m e] obtain i where
    i: "is_substring (fst (post_types ! i)) ''NOTICE123''"
      "\<forall>j<i. \<not> is_substring (fst (post_types ! j)) ''NOTICE123''"
      "post_type n = Inr (Member (snd (post_types ! i)))"
    by blast
  have "i = 10" using k(1) here before i(1,2) by (rule earliest_marker_at)
  with i(3) k(2) have "post_type n = Inr (Member NOTICE)" by simp
  with n show "seq (Notification_init ((''messageId'', JStr ''NOTICE123'') # base_payload))
      post_type = Inr (Member NOTICE)"
    by (simp add: seq_def)
next
  obtain n where n: "Notification_init ((''messageId'', JStr ''3-45_ARTIST_LIVE_ON_AIR'') # base_payload) = Inr n"
    and d: "data n = (''messageId'', JStr ''3-45_ARTIST_LIVE_ON_AIR'') # base_payload"
    using payload_with_valid [of "''messageId''"] by (auto simp: base_payload_def)
  have m: "map_of (data n) ''messageId'' = Some (JStr ''3-45_ARTIST_LIVE_ON_AIR'')"
    by (simp add: d)
  have k: "8 < length post_types" "post_types ! 8 = (''ARTIST_LIVE_ON_AIR'', LIVE)"
    by (simp_all add: post_types_def)
  have here: "is_substring (fst (post_types ! 8)) ''3-45_ARTIST_LIVE_ON_AIR''"
    unfolding k(2) str_contains_iff [symmetric] by code_simp
  have before:
    "list_all (\<lambda>kv. \<not> is_substring (fst kv) ''3-45_ARTIST_LIVE_ON_AIR'') (take 8 post_types)"
    unfolding str_contains_iff [symmetric] by code_simp
  have e: "\<exists>kv\<in>set post_types. is_substring (fst kv) ''3-45_ARTIST_LIVE_ON_AIR''"
    using here k(1) nth_mem by blast
  from post_type_earliest_marker [OF m e] obtain i where
    i: "is_substring (fst (post_types ! i)) ''3-45_ARTIST_LIVE_ON_AIR''"
      "\<forall>j<i. \<not> is_substring (fst (post_types ! j)) ''3-45_ARTIST_LIVE_ON_AIR''"
      "post_type n = Inr (Member (snd (post_types ! i)))"
    by blast
  have "i = 8" using k(1) here before i(1,2) by (rule earliest_marker_at)
  with i(3) k(2) have "post_type n = Inr (Member LIVE)" by simp
  with n show "seq (Notification_init ((''messageId'', JStr ''3-45_ARTIST_LIVE_ON_AIR'') # base_payload))
      post_type = Inr (Member LIVE)"
    by (simp add: seq_def)
qed

text \<open>
  C5: when the \<^verbatim>\<open>messageId\<close> string contains none of the twelve markers, \<^verbatim>\<open>post_type\<close>
  raises nothing and returns the placeholder string \<^verbatim>\<open>NOT IMPLEMENTED\<close>, which is no
  member of the enumeration.
\<close>

theorem post_type_unclassified:
  assumes "map_of (data self) ''messageId'' = Some (JStr s)"
    and "\<forall>kv\<in>set post_types. \<not> is_substring (fst kv) s"
  shows "post_type self = Inr (Text ''NOT IMPLEMENTED'')"
proof -
  from assms(2) have "find (\<lambda>kv. is_substring (fst kv) s) post_types = None"
    by (auto simp: find_None_iff)
  then show ?thesis
    using post_type_loop_find [OF assms(1), of post_types] by (simp add: post_type_def)
qed

theorem post_type_unclassified_witness:
  "seq (Notification_init ((''messageId'', JStr ''0-1_UNKNOWN'') # base_payload)) post_type
     = Inr (Text ''NOT IMPLEMENTED'')"
proof -
  obtain n where n: "Notification_init ((''messageId'', JStr ''0-1_UNKNOWN'') # base_payload) = Inr n"
    and d: "data n = (''messageId'', JStr ''0-1_UNKNOWN'') # base_payload"
    using payload_with_valid [of "''messageId''"] by (auto simp: base_payload_def)
  have m: "map_of (data n) ''messageId'' = Some (JStr ''0-1_UNKNOWN'')"
    by (simp add: d)
  have e: "\<forall>kv\<in>set post_types. \<not> is_substring (fst kv) ''0-1_UNKNOWN''"
    unfolding str_contains_iff [symmetric] by code_simp
  from post_type_unclassified [OF m e] n show ?thesis by (simp add: seq_def)
qed

section \<open>The post identifier\<close>

lemma matches_digits_Nil: "matches digits [] = []"
  by (simp add: digits_def)

lemma matches_digits_Cons:
  "matches digits (c # cs) = (if is_digit c then matches digits cs @ [cs] else [])"
  by (simp add: digits_def)

lemma matches_digits_first:
  "is_digit c \<Longrightarrow> \<exists>rest. matches digits (c # cs) = dropWhile is_digit cs # rest"
proof (induction cs arbitrary: c)
  case Nil
  then show ?case by (simp add: matches_digits_Cons matches_digits_Nil)
next
  case (Cons d ds)
  show ?case
  proof (cases "is_digit d")
    case True
    from Cons.IH [OF True] obtain rest where "matches digits (d # ds) = dropWhile is_digit ds # rest"
      by blast
    with True Cons.prems show ?thesis
      by (simp add: matches_digits_Cons [of c])
  next
    case False
    with Cons.prems show ?thesis
      by (simp add: matches_digits_Cons)
  qed
qed

lemma take_length_dropWhile: "take (length xs - length (dropWhile P xs)) xs = takeWhile P xs"
proof -
  have "length (takeWhile P xs) + length (dropWhile P xs) = length xs"
    by (induction xs) simp_all
  then have "length xs - length (dropWhile P xs) = length (takeWhile P xs)" by arith
  then show ?thesis using takeWhile_eq_take [of P xs] by simp
qed

lemma match_here_digits:
  "match_here digits s =
     (if s \<noteq> [] \<and> is_digit (hd s) then Some (takeWhile is_digit s) else None)"
proof (cases s)
  case Nil
  then show ?thesis by (simp add: match_here_def matches_digits_Nil)
next
  case (Cons c cs)
  show ?thesis
  proof (cases "is_digit c")
    case True
    from matches_digits_first [OF True, of cs] obtain rest where
      "matches digits (c # cs) = dropWhile is_digit cs # rest" by blast
    moreover have "take (length (c # cs) - length (dropWhile is_digit (c # cs))) (c # cs)
        = takeWhile is_digit (c # cs)"
      by (rule take_length_dropWhile)
    ultimately show ?thesis using True Cons by (simp add: match_here_def)
  next
    case False
    then show ?thesis using Cons by (simp add: match_here_def matches_digits_Cons)
  qed
qed

lemma matches_pattern:
  "matches pattern s =
     (case s of
        c # d # rest \<Rightarrow> if is_digit c \<and> d = CHR ''-'' then matches digits rest else []
      | _ \<Rightarrow> [])"
  by (simp add: pattern_def digits_def split: list.splits)

lemma matches_digits_some:
  assumes "s \<noteq> []" and "is_digit (hd s)"
  shows "\<exists>rest. matches digits s = dropWhile is_digit s # rest"
proof -
  from assms(1) obtain c cs where s: "s = c # cs" by (cases s) auto
  with assms(2) have c: "is_digit c" by simp
  from matches_digits_first [OF c, of cs] s c show ?thesis by simp
qed

lemma matches_digits_none:
  assumes "s = [] \<or> \<not> is_digit (hd s)"
  shows "matches digits s = []"
  using assms by (cases s) (simp_all add: matches_digits_Nil matches_digits_Cons)

lemma match_here_pattern:
  "match_here pattern s =
     (case s of
        c # d # rest \<Rightarrow>
          if is_digit c \<and> d = CHR ''-'' \<and> rest \<noteq> [] \<and> is_digit (hd rest)
          then Some (c # d # takeWhile is_digit rest) else None
      | _ \<Rightarrow> None)"
proof (cases s)
  case Nil
  then show ?thesis by (simp add: match_here_def matches_pattern)
next
  case (Cons c t)
  show ?thesis
  proof (cases t)
    case Nil
    with Cons show ?thesis by (simp add: match_here_def matches_pattern)
  next
    case t: (Cons d rest)
    show ?thesis
    proof (cases "is_digit c \<and> d = CHR ''-''")
      case False
      then have "matches pattern s = []"
        using Cons t by (auto simp: matches_pattern)
      with False Cons t show ?thesis by (auto simp: match_here_def)
    next
      case cd: True
      then have mp: "matches pattern s = matches digits rest"
        using Cons t by (simp add: matches_pattern)
      show ?thesis
      proof (cases "rest \<noteq> [] \<and> is_digit (hd rest)")
        case False
        then have "matches digits rest = []"
          using matches_digits_none [of rest] by blast
        with mp False Cons t show ?thesis by (auto simp: match_here_def)
      next
        case True
        then obtain more where "matches digits rest = dropWhile is_digit rest # more"
          using matches_digits_some [of rest] by blast
        with mp have m: "matches pattern s = dropWhile is_digit rest # more" by simp
        have "length (dropWhile is_digit rest) \<le> length rest"
          by (rule length_dropWhile_le)
        then have "take (length s - length (dropWhile is_digit rest)) s
            = c # d # take (length rest - length (dropWhile is_digit rest)) rest"
          using Cons t by (simp add: Suc_diff_le)
        then have "match_here pattern s = Some (c # d # takeWhile is_digit rest)"
          by (simp add: match_here_def m take_length_dropWhile)
        with cd True Cons t show ?thesis by simp
      qed
    qed
  qed
qed

lemma search_None_iff: "search r s = None \<longleftrightarrow> (\<forall>p q. s = p @ q \<longrightarrow> match_here r q = None)"
proof (induction s)
  case Nil
  show ?case by simp
next
  case (Cons c cs)
  show ?case
  proof
    assume a: "search r (c # cs) = None"
    then have h: "match_here r (c # cs) = None" and t: "search r cs = None"
      by (auto split: option.splits)
    show "\<forall>p q. c # cs = p @ q \<longrightarrow> match_here r q = None"
    proof (intro allI impI)
      fix p q assume e: "c # cs = p @ q"
      show "match_here r q = None"
      proof (cases p)
        case Nil
        with e h show ?thesis by simp
      next
        case (Cons x xs)
        with e have "cs = xs @ q" by simp
        with t Cons.IH show ?thesis by blast
      qed
    qed
  next
    assume a: "\<forall>p q. c # cs = p @ q \<longrightarrow> match_here r q = None"
    then have "match_here r (c # cs) = None" by (metis append_Nil)
    moreover have "\<forall>p q. cs = p @ q \<longrightarrow> match_here r q = None"
      using a by (metis append_Cons)
    ultimately show "search r (c # cs) = None"
      using Cons.IH by simp
  qed
qed

lemma search_Some:
  assumes "search r s = Some m"
  shows "\<exists>pre post. s = pre @ post \<and> match_here r post = Some m \<and>
           (\<forall>p q. s = p @ q \<and> length p < length pre \<longrightarrow> match_here r q = None)"
  using assms
proof (induction s)
  case Nil
  show ?case
    by (rule exI [of _ "[]"], rule exI [of _ "[]"]) (use Nil in simp)
next
  case (Cons c cs)
  show ?case
  proof (cases "match_here r (c # cs)")
    case (Some m')
    show ?thesis
      by (rule exI [of _ "[]"], rule exI [of _ "c # cs"]) (use Some Cons.prems in simp)
  next
    case None
    with Cons.prems have "search r cs = Some m" by simp
    from Cons.IH [OF this] obtain pre post where
      p: "cs = pre @ post" "match_here r post = Some m"
        "\<And>p q. cs = p @ q \<Longrightarrow> length p < length pre \<Longrightarrow> match_here r q = None"
      by blast
    have "match_here r q = None" if e: "c # cs = p' @ q" "length p' < length (c # pre)" for p' q
    proof (cases p')
      case Nil
      with e None show ?thesis by simp
    next
      case (Cons x xs)
      with e have "cs = xs @ q" "length xs < length pre" by simp_all
      then show ?thesis by (rule p(3))
    qed
    then show ?thesis
      by (intro exI [of _ "c # pre"] exI [of _ post]) (use p(1,2) in simp)
  qed
qed


lemma first_longest_unique:
  assumes "first_longest Q s m" and "first_longest Q s m'"
  shows "m = m'"
proof -
  from assms(1) obtain pre where
    1: "Q m" "occurs_at pre m s"
      "\<And>p x. Q x \<Longrightarrow> occurs_at p x s \<Longrightarrow> length pre \<le> length p \<and> (length p = length pre \<longrightarrow> length x \<le> length m)"
    unfolding first_longest_def by blast
  from assms(2) obtain pre' where
    2: "Q m'" "occurs_at pre' m' s"
      "\<And>p x. Q x \<Longrightarrow> occurs_at p x s \<Longrightarrow> length pre' \<le> length p \<and> (length p = length pre' \<longrightarrow> length x \<le> length m')"
    unfolding first_longest_def by blast
  have l: "length pre = length pre'"
    using 1(3) [OF 2(1,2)] 2(3) [OF 1(1,2)] by simp
  have lm: "length m = length m'"
    using l 1(3) [OF 2(1,2)] 2(3) [OF 1(1,2)] by auto
  from 1(2) 2(2) obtain post post' where "s = pre @ m @ post" "s = pre' @ m' @ post'"
    unfolding occurs_at_def by blast
  then have "pre @ m @ post = pre' @ m' @ post'" by simp
  with l have "m @ post = m' @ post'" by simp
  with lm show ?thesis by simp
qed

lemma search_first_longest:
  assumes L: "\<And>q m. match_here r q = Some m \<Longrightarrow>
      Q m \<and> (\<exists>post. q = m @ post) \<and> (\<forall>m' post'. Q m' \<and> q = m' @ post' \<longrightarrow> length m' \<le> length m)"
    and R: "\<And>m post. Q m \<Longrightarrow> match_here r (m @ post) \<noteq> None"
    and ex: "\<exists>pre m. Q m \<and> occurs_at pre m s"
  shows "\<exists>m. search r s = Some m \<and> first_longest Q s m"
proof -
  from ex obtain pre1 m1 post1 where o: "Q m1" "s = pre1 @ m1 @ post1"
    unfolding occurs_at_def by blast
  have "search r s \<noteq> None"
  proof
    assume "search r s = None"
    then have "match_here r (m1 @ post1) = None"
      using o(2) unfolding search_None_iff by blast
    with R [OF o(1)] show False by blast
  qed
  then obtain m where m: "search r s = Some m" by blast
  from search_Some [OF m] obtain pre post where
    p: "s = pre @ post" "match_here r post = Some m"
      "\<And>p q. s = p @ q \<Longrightarrow> length p < length pre \<Longrightarrow> match_here r q = None"
    by blast
  from L [OF p(2)] obtain post' where
    q: "Q m" "post = m @ post'"
      "\<And>m' t. Q m' \<Longrightarrow> post = m' @ t \<Longrightarrow> length m' \<le> length m"
    by blast
  have occ: "occurs_at pre m s"
    unfolding occurs_at_def using p(1) q(2) by blast
  have best: "length pre \<le> length pre' \<and> (length pre' = length pre \<longrightarrow> length m' \<le> length m)"
    if h: "Q m'" "occurs_at pre' m' s" for pre' m'
  proof -
    from h(2) obtain t where t: "s = pre' @ m' @ t" unfolding occurs_at_def by blast
    have "\<not> length pre' < length pre"
    proof
      assume "length pre' < length pre"
      with t p(3) have "match_here r (m' @ t) = None" by blast
      with R [OF h(1)] show False by blast
    qed
    moreover have "length m' \<le> length m" if "length pre' = length pre"
    proof -
      from t p(1) have "pre' @ m' @ t = pre @ post" by simp
      with that have "post = m' @ t" by simp
      with h(1) show ?thesis by (rule q(3))
    qed
    ultimately show ?thesis by simp
  qed
  have "first_longest Q s m"
    unfolding first_longest_def using q(1) occ best by blast
  with m show ?thesis by blast
qed

lemma search_no_occurrence:
  assumes L: "\<And>q m. match_here r q = Some m \<Longrightarrow> Q m \<and> (\<exists>post. q = m @ post)"
    and no: "\<not> (\<exists>pre m. Q m \<and> occurs_at pre m s)"
  shows "search r s = None"
  unfolding search_None_iff
proof (intro allI impI)
  fix p q assume s: "s = p @ q"
  show "match_here r q = None"
  proof (rule ccontr)
    assume "match_here r q \<noteq> None"
    then obtain m where "match_here r q = Some m" by blast
    from L [OF this] obtain post where "Q m" "q = m @ post" by blast
    with s have "Q m \<and> occurs_at p m s" unfolding occurs_at_def by blast
    with no show False by blast
  qed
qed

lemma digits_match_sound:
  assumes "match_here digits q = Some m"
  shows "digit_run m \<and> (\<exists>post. q = m @ post) \<and>
     (\<forall>m' post'. digit_run m' \<and> q = m' @ post' \<longrightarrow> length m' \<le> length m)"
proof -
  from assms have q: "q \<noteq> []" "is_digit (hd q)" and m: "m = takeWhile is_digit q"
    by (auto simp: match_here_digits split: if_splits)
  from q have "takeWhile is_digit q \<noteq> []" by (cases q) auto
  moreover have "list_all is_digit (takeWhile is_digit q)"
    by (auto simp: list_all_iff dest: set_takeWhileD)
  ultimately have 1: "digit_run m" by (simp add: digit_run_def m)
  have 2: "q = m @ dropWhile is_digit q" by (simp add: m)
  have 3: "length m' \<le> length m" if "digit_run m' \<and> q = m' @ post'" for m' post'
  proof -
    from that have "takeWhile is_digit q = m' @ takeWhile is_digit post'"
      by (simp add: digit_run_def list_all_iff)
    then show ?thesis by (simp add: m)
  qed
  from 1 2 3 show ?thesis by blast
qed

lemma digits_match_complete: "digit_run m \<Longrightarrow> match_here digits (m @ post) \<noteq> None"
  by (cases m) (auto simp: match_here_digits digit_run_def)

lemma pattern_match_sound:
  assumes "match_here pattern q = Some m"
  shows "dash_id m \<and> (\<exists>post. q = m @ post) \<and>
     (\<forall>m' post'. dash_id m' \<and> q = m' @ post' \<longrightarrow> length m' \<le> length m)"
proof -
  from assms obtain c rest where
    q: "q = c # CHR ''-'' # rest" "is_digit c" "rest \<noteq> []" "is_digit (hd rest)"
    and m: "m = c # CHR ''-'' # takeWhile is_digit rest"
    by (auto simp: match_here_pattern split: list.splits if_splits)
  from q(3,4) have "takeWhile is_digit rest \<noteq> []" by (cases rest) auto
  moreover have "list_all is_digit (takeWhile is_digit rest)"
    by (auto simp: list_all_iff dest: set_takeWhileD)
  ultimately have 1: "dash_id m" using q(2) by (simp add: dash_id_def m)
  have 2: "q = m @ dropWhile is_digit rest" by (simp add: m q(1))
  have 3: "length m' \<le> length m" if "dash_id m' \<and> q = m' @ post'" for m' post'
  proof -
    from that obtain c' ds where m': "m' = c' # CHR ''-'' # ds" "list_all is_digit ds"
      unfolding dash_id_def by blast
    with that q(1) have "rest = ds @ post'" by simp
    with m'(2) have "takeWhile is_digit rest = ds @ takeWhile is_digit post'"
      by (simp add: list_all_iff)
    then show ?thesis by (simp add: m m'(1))
  qed
  from 1 2 3 show ?thesis by blast
qed

lemma pattern_match_complete: "dash_id m \<Longrightarrow> match_here pattern (m @ post) \<noteq> None"
proof -
  assume "dash_id m"
  then obtain c ds where m: "m = c # CHR ''-'' # ds" "is_digit c" "ds \<noteq> []" "list_all is_digit ds"
    unfolding dash_id_def by blast
  from m(3,4) have "is_digit (hd (ds @ post))" by (cases ds) auto
  with m show ?thesis by (simp add: match_here_pattern)
qed

lemma post_id_string:
  assumes "map_of (data self) ''messageId'' = Some (JStr s)"
  shows "post_id self =
     (case search pattern s of
        Some m \<Rightarrow> Inr m
      | None \<Rightarrow> (case search digits s of Some m \<Rightarrow> Inr m | None \<Rightarrow> Inl AttributeError))"
  using assms by (simp add: post_id_def seq_def split: option.splits)

text \<open>
  C4: for a \<^verbatim>\<open>messageId\<close> string, \<^verbatim>\<open>post_id\<close> is the first substring made of a digit, a
  hyphen and one or more digits (leftmost, and as long as the digits go on); when the
  string has no such substring but has a digit, \<^verbatim>\<open>post_id\<close> is its first run of digits.
  For \<^verbatim>\<open>NOTICE123\<close> this is \<^verbatim>\<open>123\<close>.
\<close>

theorem post_id_first_match:
  assumes "map_of (data self) ''messageId'' = Some (JStr s)"
  shows "((\<exists>pre m. dash_id m \<and> occurs_at pre m s) \<longrightarrow>
            (\<exists>m. post_id self = Inr m \<and> first_longest dash_id s m)) \<and>
         (\<not> (\<exists>pre m. dash_id m \<and> occurs_at pre m s) \<and> (\<exists>pre m. digit_run m \<and> occurs_at pre m s) \<longrightarrow>
            (\<exists>m. post_id self = Inr m \<and> first_longest digit_run s m))"
proof (intro conjI impI)
  assume "\<exists>pre m. dash_id m \<and> occurs_at pre m s"
  then obtain m where "search pattern s = Some m" "first_longest dash_id s m"
    using search_first_longest [of pattern dash_id s] pattern_match_sound pattern_match_complete
    by blast
  then show "\<exists>m. post_id self = Inr m \<and> first_longest dash_id s m"
    by (simp add: post_id_string [OF assms])
next
  assume a: "\<not> (\<exists>pre m. dash_id m \<and> occurs_at pre m s) \<and> (\<exists>pre m. digit_run m \<and> occurs_at pre m s)"
  then have "search pattern s = None"
    using search_no_occurrence [of pattern dash_id s] pattern_match_sound by blast
  moreover from a obtain m where "search digits s = Some m" "first_longest digit_run s m"
    using search_first_longest [of digits digit_run s] digits_match_sound digits_match_complete
    by blast
  ultimately show "\<exists>m. post_id self = Inr m \<and> first_longest digit_run s m"
    by (simp add: post_id_string [OF assms])
qed

theorem post_id_witness:
  "seq (Notification_init ((''messageId'', JStr ''0-12_MEDIA_COMMENT'') # base_payload)) post_id
     = Inr ''0-12'' \<and>
   first_longest dash_id ''0-12_MEDIA_COMMENT'' ''0-12'' \<and>
   seq (Notification_init ((''messageId'', JStr ''NOTICE123'') # base_payload)) post_id
     = Inr ''123'' \<and>
   first_longest digit_run ''NOTICE123'' ''123''"
proof -
  obtain n where n: "Notification_init ((''messageId'', JStr ''0-12_MEDIA_COMMENT'') # base_payload) = Inr n"
    and d: "data n = (''messageId'', JStr ''0-12_MEDIA_COMMENT'') # base_payload"
    using payload_with_valid [of "''messageId''"] by (auto simp: base_payload_def)
  obtain n' where n': "Notification_init ((''messageId'', JStr ''NOTICE123'') # base_payload) = Inr n'"
    and d': "data n' = (''messageId'', JStr ''NOTICE123'') # base_payload"
    using payload_with_valid [of "''messageId''"] by (auto simp: base_payload_def)
  have m: "map_of (data n) ''messageId'' = Some (JStr ''0-12_MEDIA_COMMENT'')"
    by (simp add: d)
  have m': "map_of (data n') ''messageId'' = Some (JStr ''NOTICE123'')"
    by (simp add: d')
  have s1: "search pattern ''0-12_MEDIA_COMMENT'' = Some ''0-12''" by code_simp
  have s2: "search pattern ''NOTICE123'' = None" by code_simp
  have s3: "search digits ''NOTICE123'' = Some ''123''" by code_simp
  have v1: "post_id n = Inr ''0-12''"
    unfolding post_id_string [OF m] s1 by simp
  have v2: "post_id n' = Inr ''123''"
    unfolding post_id_string [OF m'] s2 s3 by simp
  have "dash_id ''0-12'' \<and> occurs_at [] ''0-12'' ''0-12_MEDIA_COMMENT''"
    by (simp add: dash_id_def occurs_at_def is_digit_def)
  then have h1: "\<exists>pre m. dash_id m \<and> occurs_at pre m ''0-12_MEDIA_COMMENT''" by blast
  have h2: "\<not> (\<exists>pre m. dash_id m \<and> occurs_at pre m ''NOTICE123'')"
  proof
    assume "\<exists>pre m. dash_id m \<and> occurs_at pre m ''NOTICE123''"
    then have "\<exists>m. search pattern ''NOTICE123'' = Some m \<and> first_longest dash_id ''NOTICE123'' m"
      using search_first_longest [of pattern dash_id "''NOTICE123''"]
        pattern_match_sound pattern_match_complete by blast
    with s2 show False by simp
  qed
  have "digit_run ''123'' \<and> occurs_at ''NOTICE'' ''123'' ''NOTICE123''"
    by (simp add: digit_run_def occurs_at_def is_digit_def)
  then have h3: "\<exists>pre m. digit_run m \<and> occurs_at pre m ''NOTICE123''" by blast
  from post_id_first_match [OF m] h1 v1
  have r1: "first_longest dash_id ''0-12_MEDIA_COMMENT'' ''0-12''" by auto
  from post_id_first_match [OF m'] h2 h3 v2
  have r2: "first_longest digit_run ''NOTICE123'' ''123''" by auto
  from v1 v2 r1 r2 n n' show ?thesis by (simp add: seq_def)
qed

lemma digit_occurs:
  assumes "\<exists>c\<in>set s. is_digit c"
  shows "\<exists>pre m. digit_run m \<and> occurs_at pre m s"
proof -
  from assms obtain c where "c \<in> set s" "is_digit c" by blast
  then obtain pre post where "s = pre @ [c] @ post" "digit_run [c]"
    by (auto simp: digit_run_def dest: split_list)
  then show ?thesis unfolding occurs_at_def by blast
qed

text \<open>
  C10: for a \<^verbatim>\<open>messageId\<close> string that contains a decimal digit, \<^verbatim>\<open>post_id\<close> returns a
  string: one of the two searches finds a match, so \<^verbatim>\<open>group\<close> is never called on
  \<^verbatim>\<open>None\<close>.
\<close>

theorem post_id_succeeds_with_digit:
  assumes "map_of (data self) ''messageId'' = Some (JStr s)"
    and "\<exists>c\<in>set s. is_digit c"
  shows "\<exists>m. post_id self = Inr m \<and>
     (search pattern s = Some m \<or> search pattern s = None \<and> search digits s = Some m)"
proof -
  from digit_occurs [OF assms(2)] obtain m where "search digits s = Some m"
    using search_first_longest [of digits digit_run s] digits_match_sound digits_match_complete
    by blast
  then show ?thesis
    by (cases "search pattern s") (simp_all add: post_id_string [OF assms(1)])
qed

theorem post_id_succeeds_witness:
  "seq (Notification_init ((''messageId'', JStr ''7_NOTICE'') # base_payload)) post_id = Inr ''7''"
proof -
  obtain n where n: "Notification_init ((''messageId'', JStr ''7_NOTICE'') # base_payload) = Inr n"
    and d: "data n = (''messageId'', JStr ''7_NOTICE'') # base_payload"
    using payload_with_valid [of "''messageId''"] by (auto simp: base_payload_def)
  have m: "map_of (data n) ''messageId'' = Some (JStr ''7_NOTICE'')"
    by (simp add: d)
  have c: "\<exists>c\<in>set ''7_NOTICE''. is_digit c"
    by (simp add: is_digit_def)
  have s1: "search pattern ''7_NOTICE'' = None" by code_simp
  have s2: "search digits ''7_NOTICE'' = Some ''7''" by code_simp
  from post_id_succeeds_with_digit [OF m c] s1 s2 have "post_id n = Inr ''7''" by auto
  with n show ?thesis by (simp add: seq_def)
qed

end
